theory Spec2Isabelle
  imports Complex_Main
begin

section \<open>Strings and numbers of the host language\<close>

text \<open>
  The PDF search server (\<^verbatim>\<open>createPDFMcpServer\<close>) keeps its documents in a
  process-wide object and answers five tools. This theory embeds the three tools with
  algorithmic content (\<^verbatim>\<open>register-pdf\<close>, \<^verbatim>\<open>search-pdfs\<close>,
  \<^verbatim>\<open>get-pdf-content\<close>) together with the string built-ins they call.

  A string is a list of 16-bit code units, each an integer from 0 to 65535; \<open>js\<close> writes a string of
  ASCII characters. A number a caller passes (\<^verbatim>\<open>maxResults\<close>, \<^verbatim>\<open>contextLength\<close>,
  \<^verbatim>\<open>startChar\<close>, \<^verbatim>\<open>length\<close>; the schema says \<^verbatim>\<open>z.number()\<close>) is a rational of
  either sign; the rounding of doubles and the two infinities are left out (the schema
  refuses \<^verbatim>\<open>NaN\<close>). An index computed by the code is a
  natural number.
\<close>

type_synonym code_unit = int

type_synonym js_string = "code_unit list"

definition js :: "string \<Rightarrow> js_string" where
  "js s = map of_char s"

text \<open>
  The built-ins are embedded in full for the texts of everyday use and taken from an
  \<open>engine\<close> beyond them. An engine is a parameter of every tool below, and nothing is
  assumed of it:
  \<^item> \<open>lower_rest s\<close> is \<^verbatim>\<open>s.toLowerCase()\<close> for a string with a code unit that is
    neither below 256 nor U+0130;
  \<^item> \<open>canonicalize_rest u\<close> is the form under which a regular expression with the
    flag \<^verbatim>\<open>i\<close> compares a code unit from 256 on other than U+0130;
  \<^item> \<open>throws_rest p\<close> tells whether \<^verbatim>\<open>new RegExp(p, 'gi')\<close> throws, and
    \<open>replace_rest p s\<close> is \<^verbatim>\<open>s.replace(new RegExp(p, 'gi'), `**${p}**`)\<close>, for a pattern
    \<open>p\<close> outside the fragment of the pattern language embedded below.
\<close>

record engine =
  lower_rest :: "js_string \<Rightarrow> js_string"
  canonicalize_rest :: "code_unit \<Rightarrow> code_unit"
  throws_rest :: "js_string \<Rightarrow> bool"
  replace_rest :: "js_string \<Rightarrow> js_string \<Rightarrow> js_string"

text \<open>
  \<^verbatim>\<open>toLowerCase\<close>. Below 256 a code unit has one code unit as its lower case; U+0130
  (304) has two, U+0069 U+0307.
\<close>

definition lower_latin1 :: "code_unit \<Rightarrow> code_unit" where
  "lower_latin1 u =
     (if (65 \<le> u \<and> u \<le> 90) \<or> (192 \<le> u \<and> u \<le> 222 \<and> u \<noteq> 215) then u + 32 else u)"

definition lower_unit :: "code_unit \<Rightarrow> js_string" where
  "lower_unit u = (if u = 304 then [105, 775] else [lower_latin1 u])"

definition covered :: "code_unit \<Rightarrow> bool" where
  "covered u \<longleftrightarrow> u < 256 \<or> u = 304"

definition toLowerCase :: "engine \<Rightarrow> js_string \<Rightarrow> js_string" where
  "toLowerCase eng s =
     (if list_all covered s then concat (map lower_unit s) else lower_rest eng s)"

text \<open>
  \<^verbatim>\<open>s.indexOf(pat, from)\<close>: the least index \<open>k \<ge> from\<close> at which \<open>pat\<close> starts in
  \<open>s\<close>; \<open>None\<close> stands for the result \<open>-1\<close>. The empty pattern is found at
  \<open>min from (length s)\<close>.
\<close>

fun find_prefix :: "js_string \<Rightarrow> js_string \<Rightarrow> nat option" where
  "find_prefix pat [] = (if pat = [] then Some 0 else None)"
| "find_prefix pat (c # cs) =
     (if take (length pat) (c # cs) = pat then Some 0
      else map_option Suc (find_prefix pat cs))"

definition indexOf :: "js_string \<Rightarrow> js_string \<Rightarrow> nat \<Rightarrow> nat option" where
  "indexOf s pat from =
     map_option (\<lambda>k. min from (length s) + k) (find_prefix pat (drop from s))"

text \<open>
  A number used as an index loses its fraction, towards zero. \<^verbatim>\<open>s.substring(start, end)\<close>
  then clamps both arguments to \<open>[0, length s]\<close> and swaps them when \<open>start > end\<close>;
  \<^verbatim>\<open>s.substring(start)\<close> runs to the end of \<open>s\<close>.
\<close>

definition to_integer :: "rat \<Rightarrow> int" where
  "to_integer x = (if x < 0 then \<lceil>x\<rceil> else \<lfloor>x\<rfloor>)"

definition clamp_index :: "int \<Rightarrow> nat \<Rightarrow> nat" where
  "clamp_index i len = (if i < 0 then 0 else min (nat i) len)"

definition substring :: "js_string \<Rightarrow> rat \<Rightarrow> rat \<Rightarrow> js_string" where
  "substring s start end =
     (let a = clamp_index (to_integer start) (length s);
          b = clamp_index (to_integer end) (length s);
          from = min a b;
          to = max a b
      in take (to - from) (drop from s))"

definition substring_from :: "js_string \<Rightarrow> rat \<Rightarrow> js_string" where
  "substring_from s start = drop (clamp_index (to_integer start) (length s)) s"

text \<open>
  \<^verbatim>\<open>s.trim()\<close> removes white space and line terminators at both ends: TAB, LF, VT, FF,
  CR, SP, NBSP, U+1680, U+2000 to U+200A, U+2028, U+2029, U+202F, U+205F, U+3000 and
  U+FEFF.
\<close>

definition is_white_space :: "code_unit \<Rightarrow> bool" where
  "is_white_space u \<longleftrightarrow>
     u \<in> {9, 10, 11, 12, 13, 32, 160, 5760, 8232, 8233, 8239, 8287, 12288, 65279} \<or>
     (8192 \<le> u \<and> u \<le> 8202)"

definition trim :: "js_string \<Rightarrow> js_string" where
  "trim s = rev (dropWhile is_white_space (rev (dropWhile is_white_space s)))"

text \<open>
  \<^verbatim>\<open>xs.slice(0, end)\<close> on an array: \<open>end\<close> loses its fraction, and a negative \<open>end\<close>
  counts from the back.
\<close>

definition slice0 :: "'a list \<Rightarrow> rat \<Rightarrow> 'a list" where
  "slice0 xs e =
     (let len = int (length xs);
          relative = to_integer e;
          final = (if relative < 0 then max (len + relative) 0 else min relative len)
      in take (nat final) xs)"

section \<open>Outcomes of a call\<close>

text \<open>A handler either returns a value or throws.\<close>

datatype error = SyntaxError | TypeError | InvalidArgument

datatype 'a outcome = Returns 'a | Throws error

section \<open>The regular expression built from the query\<close>

text \<open>
  \<^verbatim>\<open>new RegExp(query, 'gi')\<close> reads the query as a pattern. The fragment embedded:
  pattern characters, \<^verbatim>\<open>.\<close>, \<^verbatim>\<open>^\<close>, \<^verbatim>\<open>$\<close>, \<^verbatim>\<open>|\<close>, capturing groups, the quantifiers
  \<^verbatim>\<open>*\<close>, \<^verbatim>\<open>+\<close>, \<^verbatim>\<open>?\<close> (greedy, or lazy with a following \<^verbatim>\<open>?\<close>), and a backslash
  before a character that is no ASCII letter or digit (an identity escape). In the
  non-Unicode mode used here \<^verbatim>\<open>]\<close> and \<^verbatim>\<open>}\<close> on their own are pattern characters.
  A pattern with a character class, a brace, a letter or digit escape or a \<^verbatim>\<open>(?\<close> group
  is \<open>Beyond\<close> the fragment: what the constructor and the replacement do with it is
  asked of the engine. \<open>Rejected\<close> is a pattern of the fragment that has no derivation
  in the grammar, for which the constructor throws \<open>SyntaxError\<close>.
\<close>

datatype 'a parse = Parsed 'a | Rejected | Beyond

fun bind_parse :: "'a parse \<Rightarrow> ('a \<Rightarrow> 'b parse) \<Rightarrow> 'b parse" where
  "bind_parse (Parsed x) f = f x"
| "bind_parse Rejected f = Rejected"
| "bind_parse Beyond f = Beyond"

datatype token =
  TChar code_unit | TDot | TBol | TEol | TBar | TOpen | TClose | TStar | TPlus | TQuest

definition is_ascii_alnum :: "code_unit \<Rightarrow> bool" where
  "is_ascii_alnum u \<longleftrightarrow>
     (48 \<le> u \<and> u \<le> 57) \<or> (65 \<le> u \<and> u \<le> 90) \<or> (97 \<le> u \<and> u \<le> 122)"

definition token_of :: "code_unit \<Rightarrow> token" where
  "token_of c =
     (if c = of_char CHR ''.'' then TDot
      else if c = of_char CHR ''^'' then TBol
      else if c = of_char CHR ''$'' then TEol
      else if c = of_char CHR ''|'' then TBar
      else if c = of_char CHR ''('' then TOpen
      else if c = of_char CHR '')'' then TClose
      else if c = of_char CHR ''*'' then TStar
      else if c = of_char CHR ''+'' then TPlus
      else if c = of_char CHR ''?'' then TQuest
      else TChar c)"

fun tokenize :: "js_string \<Rightarrow> token list parse" where
  "tokenize [] = Parsed []"
| "tokenize (c # cs) =
     (if c = of_char (CHR 0x5C) then
        (case cs of
           [] \<Rightarrow> Rejected
         | d # ds \<Rightarrow>
             if is_ascii_alnum d then Beyond
             else bind_parse (tokenize ds) (\<lambda>ts. Parsed (TChar d # ts)))
      else if c = of_char CHR ''['' \<or> c = of_char CHR ''{'' then Beyond
      else if c = of_char CHR ''('' \<and> take 1 cs = js ''?'' then Beyond
      else bind_parse (tokenize cs) (\<lambda>ts. Parsed (token_of c # ts)))"

datatype regex =
  Epsilon | Chr code_unit | Dot | Bol | Eol
  | Cat regex regex | Alt regex regex
  | Star bool regex | Opt bool regex

fun cat_of :: "regex list \<Rightarrow> regex" where
  "cat_of [] = Epsilon"
| "cat_of (r # rs) = Cat r (cat_of rs)"

fun alt_of :: "regex list \<Rightarrow> regex" where
  "alt_of [] = Epsilon"
| "alt_of [r] = r"
| "alt_of (r # rs) = Alt r (alt_of rs)"

text \<open>
  A frame holds the finished alternatives and the terms of the alternative being
  read, both newest first.
\<close>

type_synonym frame = "regex list \<times> regex list"

definition close_frame :: "frame \<Rightarrow> regex" where
  "close_frame fr = alt_of (rev (cat_of (rev (snd fr)) # fst fr))"

datatype last_term = NoAtom | Atom | Quantified

fun make_lazy :: "regex \<Rightarrow> regex" where
  "make_lazy (Star g r) = Star False r"
| "make_lazy (Opt g r) = Opt False r"
| "make_lazy (Cat r (Star g r')) = Cat r (Star False r')"
| "make_lazy r = r"

text \<open>
  The parser rejects a quantifier with nothing to repeat, an unmatched \<^verbatim>\<open>)\<close> and a
  group left open at the end of the pattern. \<^verbatim>\<open>r+\<close> is kept as \<open>r\<close> followed by
  \<^verbatim>\<open>r*\<close>, which matches the same texts in the same order.
\<close>

fun parse_tokens :: "frame \<Rightarrow> frame list \<Rightarrow> last_term \<Rightarrow> token list \<Rightarrow> regex parse" where
  "parse_tokens fr stack lt [] =
     (if stack = [] then Parsed (close_frame fr) else Rejected)"
| "parse_tokens fr stack lt (TChar c # ts) =
     parse_tokens (fst fr, Chr c # snd fr) stack Atom ts"
| "parse_tokens fr stack lt (TDot # ts) =
     parse_tokens (fst fr, Dot # snd fr) stack Atom ts"
| "parse_tokens fr stack lt (TBol # ts) =
     parse_tokens (fst fr, Bol # snd fr) stack NoAtom ts"
| "parse_tokens fr stack lt (TEol # ts) =
     parse_tokens (fst fr, Eol # snd fr) stack NoAtom ts"
| "parse_tokens fr stack lt (TBar # ts) =
     parse_tokens (cat_of (rev (snd fr)) # fst fr, []) stack NoAtom ts"
| "parse_tokens fr stack lt (TOpen # ts) =
     parse_tokens ([], []) (fr # stack) NoAtom ts"
| "parse_tokens fr stack lt (TClose # ts) =
     (case stack of
        [] \<Rightarrow> Rejected
      | parent # stack' \<Rightarrow>
          parse_tokens (fst parent, close_frame fr # snd parent) stack' Atom ts)"
| "parse_tokens fr stack lt (TStar # ts) =
     (case (lt, snd fr) of
        (Atom, r # rs) \<Rightarrow> parse_tokens (fst fr, Star True r # rs) stack Quantified ts
      | _ \<Rightarrow> Rejected)"
| "parse_tokens fr stack lt (TPlus # ts) =
     (case (lt, snd fr) of
        (Atom, r # rs) \<Rightarrow>
          parse_tokens (fst fr, Cat r (Star True r) # rs) stack Quantified ts
      | _ \<Rightarrow> Rejected)"
| "parse_tokens fr stack lt (TQuest # ts) =
     (case (lt, snd fr) of
        (Atom, r # rs) \<Rightarrow> parse_tokens (fst fr, Opt True r # rs) stack Quantified ts
      | (Quantified, r # rs) \<Rightarrow> parse_tokens (fst fr, make_lazy r # rs) stack NoAtom ts
      | _ \<Rightarrow> Rejected)"

definition count_groups :: "token list \<Rightarrow> nat" where
  "count_groups ts = length (filter (\<lambda>t. t = TOpen) ts)"

text \<open>The pattern as the constructor reads it, with the number of its capturing groups.\<close>

definition parse_pattern :: "js_string \<Rightarrow> (regex \<times> nat) parse" where
  "parse_pattern pattern =
     bind_parse (tokenize pattern) (\<lambda>ts.
       bind_parse (parse_tokens ([], []) [] NoAtom ts) (\<lambda>r.
         Parsed (r, count_groups ts)))"

subsection \<open>Matching\<close>

text \<open>
  With the flag \<^verbatim>\<open>i\<close> two code units match when their canonical forms agree. The
  canonical form of a code unit is its upper case where that is one code unit: below
  256 this moves the small letters, U+00B5 to U+039C (924) and U+00FF to U+0178 (376);
  U+0130 (304) is its own upper case.
\<close>

definition canonicalize :: "engine \<Rightarrow> code_unit \<Rightarrow> code_unit" where
  "canonicalize eng u =
     (if u < 256 then
        (if (97 \<le> u \<and> u \<le> 122) \<or> (224 \<le> u \<and> u \<le> 254 \<and> u \<noteq> 247) then u - 32
         else if u = 181 then 924
         else if u = 255 then 376
         else u)
      else if u = 304 then u
      else canonicalize_rest eng u)"

definition is_line_terminator :: "code_unit \<Rightarrow> bool" where
  "is_line_terminator u \<longleftrightarrow> u \<in> {10, 13, 8232, 8233}"

text \<open>
  \<open>ends eng n r s\<close>: the input has \<open>n\<close> code units, \<open>s\<close> is what is left of it at the
  current position; the result lists what is left after each way \<open>r\<close> can match there,
  in the order the backtracking matcher tries them. An iteration of a quantifier that
  consumes nothing is rejected, as the matcher does.
\<close>

function ends :: "engine \<Rightarrow> nat \<Rightarrow> regex \<Rightarrow> js_string \<Rightarrow> js_string list" where
  "ends eng n Epsilon s = [s]"
| "ends eng n (Chr c) s =
     (case s of
        [] \<Rightarrow> []
      | x # xs \<Rightarrow> if canonicalize eng x = canonicalize eng c then [xs] else [])"
| "ends eng n Dot s =
     (case s of
        [] \<Rightarrow> []
      | x # xs \<Rightarrow> if is_line_terminator x then [] else [xs])"
| "ends eng n Bol s = (if length s = n then [s] else [])"
| "ends eng n Eol s = (if s = [] then [s] else [])"
| "ends eng n (Cat r1 r2) s = concat (map (ends eng n r2) (ends eng n r1 s))"
| "ends eng n (Alt r1 r2) s = ends eng n r1 s @ ends eng n r2 s"
| "ends eng n (Star greedy r) s =
     (let more = concat (map (\<lambda>s'. if length s' < length s
                                   then ends eng n (Star greedy r) s' else [])
                          (ends eng n r s))
      in if greedy then more @ [s] else s # more)"
| "ends eng n (Opt greedy r) s =
     (let once = filter (\<lambda>s'. length s' < length s) (ends eng n r s)
      in if greedy then once @ [s] else s # once)"
  by pat_completeness auto
termination
  by (relation "measures [\<lambda>(eng, n, r, s). size r, \<lambda>(eng, n, r, s). length s]") auto

subsection \<open>Replacement\<close>

text \<open>
  The replacement text is a template: \<^verbatim>\<open>$$\<close> stands for a dollar sign, \<^verbatim>\<open>$&\<close> for the
  matched text, \<^verbatim>\<open>$`\<close> for the text before the match and \<^verbatim>\<open>$'\<close> for the text after
  it. \<^verbatim>\<open>$n\<close> refers to a capturing group when the pattern has one; \<open>expand\<close> leaves it
  as it is, which is right for a pattern without groups.
\<close>

fun expand :: "js_string \<Rightarrow> js_string \<Rightarrow> js_string \<Rightarrow> js_string \<Rightarrow> js_string" where
  "expand [] matched pre post = []"
| "expand [c] matched pre post = [c]"
| "expand (c # d # t) matched pre post =
     (if c = of_char CHR ''$'' then
        (if d = of_char CHR ''$'' then of_char CHR ''$'' # expand t matched pre post
         else if d = of_char CHR ''&'' then matched @ expand t matched pre post
         else if d = of_char (CHR 0x60) then pre @ expand t matched pre post
         else if d = of_char (CHR 0x27) then post @ expand t matched pre post
         else c # expand (d # t) matched pre post)
      else c # expand (d # t) matched pre post)"

fun has_group_reference :: "js_string \<Rightarrow> bool" where
  "has_group_reference (c # d # t) =
     ((c = of_char CHR ''$'' \<and> 48 \<le> d \<and> d \<le> 57) \<or> has_group_reference (d # t))"
| "has_group_reference t = False"

text \<open>
  \<^verbatim>\<open>s.replace(re, template)\<close> with the flag \<^verbatim>\<open>g\<close>: from index \<open>i\<close> on, the leftmost
  match is replaced and the search goes on behind it; after an empty match it goes on
  one code unit further.
\<close>

function replace_global :: "engine \<Rightarrow> regex \<Rightarrow> js_string \<Rightarrow> js_string \<Rightarrow> nat \<Rightarrow> js_string" where
  "replace_global eng re template s i =
     (if length s < i then []
      else
        (case ends eng (length s) re (drop i s) of
           [] \<Rightarrow> (if i < length s then s ! i # replace_global eng re template s (Suc i) else [])
         | e # _ \<Rightarrow>
             let k = length s - i - length e;
                 replacement = expand template (take k (drop i s)) (take i s) (drop (i + k) s)
             in if k = 0 then
                  replacement @
                    (if i < length s then s ! i # replace_global eng re template s (Suc i)
                     else [])
                else replacement @ replace_global eng re template s (i + k)))"
  by pat_completeness auto
termination
  by (relation "measure (\<lambda>(eng, re, template, s, i). Suc (length s) - i)") auto

text \<open>
  The preview: \<^verbatim>\<open>context.replace(new RegExp(query, 'gi'), `**${query}**`)\<close>. The
  constructor runs first and may throw. A template that refers to a group of the
  pattern is replaced by the engine.
\<close>

definition highlight :: "engine \<Rightarrow> js_string \<Rightarrow> js_string \<Rightarrow> js_string outcome" where
  "highlight eng context query =
     (let template = js ''**'' @ query @ js ''**''
      in case parse_pattern query of
           Rejected \<Rightarrow> Throws SyntaxError
         | Beyond \<Rightarrow>
             if throws_rest eng query then Throws SyntaxError
             else Returns (replace_rest eng query context)
         | Parsed (re, groups) \<Rightarrow>
             if 0 < groups \<and> has_group_reference template
             then Returns (replace_rest eng query context)
             else Returns (replace_global eng re template context 0))"

section \<open>Documents and the store\<close>

record pdf_metadata =
  pages :: nat
  size_bytes :: nat
  createdAt :: nat
  info :: js_string

record PDFDocument =
  doc_id :: js_string
  filePath :: js_string
  filename :: js_string
  content :: js_string
  metadata :: pdf_metadata

record SearchMatch =
  position :: nat
  context_text :: js_string
  preview :: js_string

record SearchResult =
  docId :: js_string
  result_filename :: js_string
  totalMatches :: nat
  matches :: "SearchMatch list"
  result_metadata :: pdf_metadata

text \<open>
  \<^verbatim>\<open>pdfDocuments\<close> is a plain object used as a dictionary. Its own properties are kept
  in insertion order, the order in which \<^verbatim>\<open>Object.values\<close> lists them (the keys written
  by the code start with \<^verbatim>\<open>pdf_\<close> and are never array indices). Reading a key that is
  no own property finds the members every object inherits.
\<close>

type_synonym store = "(js_string \<times> PDFDocument) list"

fun store_put :: "store \<Rightarrow> js_string \<Rightarrow> PDFDocument \<Rightarrow> store" where
  "store_put [] k d = [(k, d)]"
| "store_put ((k', d') # st) k d =
     (if k' = k then (k, d) # st else (k', d') # store_put st k d)"

definition object_prototype_names :: "js_string list" where
  "object_prototype_names =
     map js
       [''constructor'', ''__defineGetter__'', ''__defineSetter__'', ''hasOwnProperty'',
        ''__lookupGetter__'', ''__lookupSetter__'', ''isPrototypeOf'',
        ''propertyIsEnumerable'', ''toString'', ''valueOf'', ''__proto__'',
        ''toLocaleString'']"

datatype property = Own PDFDocument | Inherited | Undefined

definition store_get :: "store \<Rightarrow> js_string \<Rightarrow> property" where
  "store_get st k =
     (case map_of st k of
        Some d \<Rightarrow> Own d
      | None \<Rightarrow> if k \<in> set object_prototype_names then Inherited else Undefined)"

definition Object_values :: "store \<Rightarrow> PDFDocument list" where
  "Object_values st = map snd st"

section \<open>register-pdf\<close>

text \<open>
  The tool and \<^verbatim>\<open>registerPDFsFromFolder\<close> build a document with the same lines;
  \<open>new_document\<close> is these lines.
  What one registration reads from its environment: \<^verbatim>\<open>Date.now()\<close>, the text
  \<^verbatim>\<open>Math.random().toString(36).substr(2, 9)\<close>, and \<^verbatim>\<open>new Date()\<close>. Reading and
  parsing the file happen outside; they deliver the size of the buffer and the parsed
  text, or fail with a message.
\<close>

record reading =
  now :: nat
  random_suffix :: js_string
  created :: nat

record parsed_pdf =
  text_of :: js_string
  numpages :: nat
  pdf_info :: js_string

type_synonym file_result = "js_string + nat \<times> parsed_pdf"

fun decimal :: "nat \<Rightarrow> js_string" where
  "decimal n =
     (if n < 10 then [48 + int n]
      else decimal (n div 10) @ [48 + int (n mod 10)])"

text \<open>\<^verbatim>\<open>path.basename\<close> for POSIX paths.\<close>

definition basename :: "js_string \<Rightarrow> js_string" where
  "basename p =
     rev (takeWhile (\<lambda>c. c \<noteq> of_char CHR ''/'')
            (dropWhile (\<lambda>c. c = of_char CHR ''/'') (rev p)))"

definition new_docId :: "reading \<Rightarrow> js_string" where
  "new_docId env = js ''pdf_'' @ decimal (now env) @ js ''_'' @ random_suffix env"

definition new_document :: "reading \<Rightarrow> js_string \<Rightarrow> nat \<Rightarrow> parsed_pdf \<Rightarrow> PDFDocument" where
  "new_document env path buffer_length parsed =
     \<lparr>doc_id = new_docId env,
      filePath = path,
      filename = basename path,
      content = text_of parsed,
      metadata = \<lparr>pages = numpages parsed, size_bytes = buffer_length,
                  createdAt = created env, info = pdf_info parsed\<rparr>\<rparr>"

record register_payload =
  reg_docId :: js_string
  reg_filename :: js_string
  reg_pages :: nat
  reg_contentLength :: nat

datatype 'a reply = Success 'a | Failure js_string

definition register_pdf ::
  "reading \<Rightarrow> file_result \<Rightarrow> js_string \<Rightarrow> store \<Rightarrow> register_payload reply \<times> store" where
  "register_pdf env file path st =
     (case file of
        Inl message \<Rightarrow> (Failure message, st)
      | Inr (buffer_length, parsed) \<Rightarrow>
          let document = new_document env path buffer_length parsed
          in (Success \<lparr>reg_docId = doc_id document,
                       reg_filename = filename document,
                       reg_pages = pages (metadata document),
                       reg_contentLength = length (text_of parsed)\<rparr>,
              store_put st (doc_id document) document))"

text \<open>A sequence of calls of the tool, with the identifiers the successful ones return.\<close>

fun register_calls ::
  "(reading \<times> file_result \<times> js_string) list \<Rightarrow> store \<Rightarrow> js_string list \<times> store" where
  "register_calls [] st = ([], st)"
| "register_calls ((env, file, path) # calls) st =
     (case register_pdf env file path st of
        (Failure message, st') \<Rightarrow> register_calls calls st'
      | (Success payload, st') \<Rightarrow>
          (case register_calls calls st' of
             (ids, st'') \<Rightarrow> (reg_docId payload # ids, st'')))"

text \<open>
  \<^verbatim>\<open>registerPDFsFromFolder\<close>: the loop over the files of the folder whose names end in
  \<^verbatim>\<open>.pdf\<close>; a file that cannot be read or parsed is skipped.
\<close>

fun registerPDFsFromFolder ::
  "(reading \<times> file_result \<times> js_string) list \<Rightarrow> js_string list \<Rightarrow> store \<Rightarrow>
     js_string list \<times> store" where
  "registerPDFsFromFolder [] registeredIds st = (registeredIds, st)"
| "registerPDFsFromFolder ((env, file, pdfPath) # files) registeredIds st =
     (case file of
        Inl message \<Rightarrow> registerPDFsFromFolder files registeredIds st
      | Inr (buffer_length, parsed) \<Rightarrow>
          let document = new_document env pdfPath buffer_length parsed
          in registerPDFsFromFolder files (registeredIds @ [doc_id document])
               (store_put st (doc_id document) document))"

section \<open>search-pdfs\<close>

text \<open>An optional argument of a tool and the default its handler gives it.\<close>

definition with_default :: "'a option \<Rightarrow> 'a \<Rightarrow> 'a" where
  "with_default arg d = (case arg of None \<Rightarrow> d | Some v \<Rightarrow> v)"

text \<open>
  The \<^verbatim>\<open>while\<close> loop over one document. The index found in the lowered content is
  used as an index of the content. The test on \<^verbatim>\<open>matches.length\<close> comes after the
  push, so the loop collects one match before the limit is looked at.
\<close>

function search_loop ::
  "engine \<Rightarrow> PDFDocument \<Rightarrow> js_string \<Rightarrow> rat \<Rightarrow> rat \<Rightarrow> nat \<Rightarrow> SearchMatch list \<Rightarrow>
     SearchMatch list outcome" where
  "search_loop eng doc query maxResults contextLength startIndex collected =
     (let contentLower = toLowerCase eng (content doc);
          queryLower = toLowerCase eng query
      in if startIndex < length contentLower then
           (case indexOf contentLower queryLower startIndex of
              None \<Rightarrow> Returns collected
            | Some index \<Rightarrow>
                let contextStart = max 0 (of_nat index - contextLength);
                    contextEnd = min (of_nat (length (content doc)))
                                     (of_nat index + of_nat (length query) + contextLength);
                    context = substring (content doc) contextStart contextEnd
                in (case highlight eng context query of
                      Throws e \<Rightarrow> Throws e
                    | Returns preview_text \<Rightarrow>
                        let collected' = collected @
                              [\<lparr>position = index, context_text = trim context,
                                preview = preview_text\<rparr>];
                            startIndex' = index + length query
                        in if maxResults \<le> of_nat (length collected') then Returns collected'
                           else search_loop eng doc query maxResults contextLength
                                  startIndex' collected'))
         else Returns collected)"
  by pat_completeness auto
termination
proof -
  have step: "n < nat \<lceil>k\<rceil>" if "\<not> k \<le> 1 + of_nat n" for k :: rat and n :: nat
  proof -
    from that have "of_int (int n) < k" by simp
    then have "int n < \<lceil>k\<rceil>" by (simp only: less_ceiling_iff)
    then show ?thesis by simp
  qed
  show ?thesis
    by (relation "measure (\<lambda>(eng, doc, query, maxResults, contextLength, startIndex, collected).
                     nat \<lceil>maxResults\<rceil> - length collected)")
       (auto dest!: step)
qed

text \<open>The \<^verbatim>\<open>for\<close> loop over the documents of the store.\<close>

fun search_docs ::
  "engine \<Rightarrow> PDFDocument list \<Rightarrow> js_string \<Rightarrow> rat \<Rightarrow> rat \<Rightarrow> SearchResult list \<Rightarrow>
     SearchResult list outcome" where
  "search_docs eng [] query maxResults contextLength results = Returns results"
| "search_docs eng (doc # docs) query maxResults contextLength results =
     (case search_loop eng doc query maxResults contextLength 0 [] of
        Throws e \<Rightarrow> Throws e
      | Returns found \<Rightarrow>
          let results' =
                (if 0 < length found then
                   results @
                     [\<lparr>docId = doc_id doc,
                       result_filename = filename doc,
                       totalMatches = length found,
                       matches = slice0 found (min (of_nat (length found)) maxResults),
                       result_metadata = metadata doc\<rparr>]
                 else results)
          in if maxResults \<le> of_nat (length results') then Returns results'
             else search_docs eng docs query maxResults contextLength results')"

record search_payload =
  query_of :: js_string
  totalDocuments :: nat
  resultsFound :: nat
  results_of :: "SearchResult list"

definition search_pdfs ::
  "engine \<Rightarrow> store \<Rightarrow> js_string \<Rightarrow> rat option \<Rightarrow> rat option \<Rightarrow> search_payload outcome" where
  "search_pdfs eng st query maxResults_arg contextLength_arg =
     (let maxResults = with_default maxResults_arg 10;
          contextLength = with_default contextLength_arg 200
      in case search_docs eng (Object_values st) query maxResults contextLength [] of
           Throws e \<Rightarrow> Throws e
         | Returns found \<Rightarrow>
             Returns \<lparr>query_of = query,
                      totalDocuments = length st,
                      resultsFound = length found,
                      results_of = found\<rparr>)"

section \<open>get-pdf-content\<close>

record content_payload =
  got_docId :: js_string
  got_filename :: js_string
  startChar :: rat
  contentLength :: nat
  got_content :: js_string

text \<open>
  \<^verbatim>\<open>length\<close> is tested for truthiness: absent and \<open>0\<close> take the same branch. A key
  that only names an inherited member passes the test \<^verbatim>\<open>!doc\<close>, and reading the
  text of its missing \<^verbatim>\<open>content\<close> throws.
\<close>

definition get_pdf_content ::
  "store \<Rightarrow> js_string \<Rightarrow> rat option \<Rightarrow> rat option \<Rightarrow> content_payload reply outcome" where
  "get_pdf_content st key startChar_arg length_arg =
     (let start = with_default startChar_arg 0
      in case store_get st key of
           Undefined \<Rightarrow> Returns (Failure (js ''Document not found''))
         | Inherited \<Rightarrow> Throws TypeError
         | Own doc \<Rightarrow>
             let text = (case length_arg of
                           None \<Rightarrow> substring_from (content doc) start
                         | Some len \<Rightarrow>
                             if len \<noteq> 0 then substring (content doc) start (start + len)
                             else substring_from (content doc) start)
             in Returns (Success \<lparr>got_docId = doc_id doc,
                                   got_filename = filename doc,
                                   startChar = start,
                                   contentLength = length text,
                                   got_content = text\<rparr>))"

section \<open>What the claims speak of\<close>

text \<open>
  A case-insensitive occurrence of the query at the zero-based offset \<open>p\<close> of the
  content, and whether the content has one.
\<close>

definition occurs_at :: "engine \<Rightarrow> js_string \<Rightarrow> js_string \<Rightarrow> nat \<Rightarrow> bool" where
  "occurs_at eng c q p \<longleftrightarrow>
     p + length q \<le> length c \<and>
     toLowerCase eng (take (length q) (drop p c)) = toLowerCase eng q"




text \<open>
  The bounds of the window of the content around a match at \<open>pos\<close>:
  \<^verbatim>\<open>max(0, pos - contextLength)\<close> and
  \<^verbatim>\<open>min(len(content), pos + len(q) + contextLength)\<close>.
\<close>

definition window_start :: "rat \<Rightarrow> nat \<Rightarrow> rat" where
  "window_start contextLength pos = max 0 (of_nat pos - contextLength)"

definition window_end :: "js_string \<Rightarrow> js_string \<Rightarrow> rat \<Rightarrow> nat \<Rightarrow> rat" where
  "window_end c q contextLength pos =
     min (of_nat (length c)) (of_nat pos + of_nat (length q) + contextLength)"

text \<open>The window as the code takes it, with \<^verbatim>\<open>substring\<close>.\<close>

definition context_window :: "js_string \<Rightarrow> js_string \<Rightarrow> rat \<Rightarrow> nat \<Rightarrow> js_string" where
  "context_window c q contextLength pos =
     substring c (window_start contextLength pos) (window_end c q contextLength pos)"

text \<open>The offsets a search reports, one list for each document among the results.\<close>

definition reported_positions :: "search_payload outcome \<Rightarrow> nat list list" where
  "reported_positions out =
     (case out of
        Returns p \<Rightarrow> map (\<lambda>r. map position (matches r)) (results_of p)
      | Throws e \<Rightarrow> [])"

text \<open>The highlight marker around a text.\<close>

definition mark :: "js_string \<Rightarrow> js_string" where
  "mark t = js ''**'' @ t @ js ''**''"

text \<open>
  The readings of the calls that succeed, and what they observed: the timestamp and
  the random text.
\<close>

definition successful :: "(reading \<times> file_result \<times> js_string) list \<Rightarrow> reading list" where
  "successful calls = map fst (filter (\<lambda>(env, file, path). \<not> isl file) calls)"

definition observed ::
  "(reading \<times> file_result \<times> js_string) list \<Rightarrow> (nat \<times> js_string) list" where
  "observed calls = map (\<lambda>env. (now env, random_suffix env)) (successful calls)"

text \<open>A query none of whose characters has a meaning in a pattern.\<close>

definition is_syntax_character :: "code_unit \<Rightarrow> bool" where
  "is_syntax_character c \<longleftrightarrow> c \<in> set (js ''^$.*+?()[]{}|'') \<or> c = of_char (CHR 0x5C)"

definition plain_query :: "js_string \<Rightarrow> bool" where
  "plain_query q \<longleftrightarrow> list_all (\<lambda>c. \<not> is_syntax_character c) q"


text \<open>
  The same with the other reading of case-insensitive, that of the flag \<^verbatim>\<open>i\<close>:
  \<open>starts_with eng q s\<close> holds when \<open>s\<close> begins with code units whose canonical forms
  are those of \<open>q\<close>, and \<open>wrap_matches\<close> replaces these occurrences. The two readings
  differ beyond the code units below 256.
\<close>

definition starts_with :: "engine \<Rightarrow> js_string \<Rightarrow> js_string \<Rightarrow> bool" where
  "starts_with eng q s \<longleftrightarrow>
     length q \<le> length s \<and>
     map (canonicalize eng) (take (length q) s) = map (canonicalize eng) q"

function wrap_matches ::
  "engine \<Rightarrow> (js_string \<Rightarrow> js_string) \<Rightarrow> js_string \<Rightarrow> js_string \<Rightarrow> js_string" where
  "wrap_matches eng f q s =
     (if q = [] \<or> s = [] then s
      else if starts_with eng q s
           then f (take (length q) s) @ wrap_matches eng f q (drop (length q) s)
           else hd s # wrap_matches eng f q (tl s))"
  by pat_completeness auto
termination
  by (relation "measure (\<lambda>(eng, f, q, s). length s)") auto

subsection \<open>Stores to try the tools on\<close>

text \<open>
  \<open>sample_store t\<close> is the store of a process that has registered one file,
  \<^verbatim>\<open>/docs/a.pdf\<close>, whose parsed text is \<open>t\<close>; its identifier is
  \<^verbatim>\<open>pdf_17_k3j2h1g0f\<close>. \<open>sample_store2 t t'\<close> has a second file, \<^verbatim>\<open>/docs/b.pdf\<close>
  with the text \<open>t'\<close> and the identifier \<^verbatim>\<open>pdf_18_zzz\<close>.
\<close>

definition sample_reading :: reading where
  "sample_reading = \<lparr>now = 17, random_suffix = js ''k3j2h1g0f'', created = 18\<rparr>"

definition second_reading :: reading where
  "second_reading = \<lparr>now = 18, random_suffix = js ''zzz'', created = 19\<rparr>"

definition sample_file :: "js_string \<Rightarrow> file_result" where
  "sample_file t = Inr (2048, \<lparr>text_of = t, numpages = 1, pdf_info = []\<rparr>)"

definition sample_document :: "js_string \<Rightarrow> PDFDocument" where
  "sample_document t =
     new_document sample_reading (js ''/docs/a.pdf'') 2048
       \<lparr>text_of = t, numpages = 1, pdf_info = []\<rparr>"


definition sample_store :: "js_string \<Rightarrow> store" where
  "sample_store t =
     snd (register_pdf sample_reading (sample_file t) (js ''/docs/a.pdf'') [])"

definition sample_store2 :: "js_string \<Rightarrow> js_string \<Rightarrow> store" where
  "sample_store2 t t' =
     snd (register_pdf second_reading (sample_file t') (js ''/docs/b.pdf'') (sample_store t))"

text \<open>
  An engine for the closed examples. Their texts are made of code units below 256 and
  of U+0130, and their queries are inside the embedded part of the patterns, so that no
  field of the engine is consulted.
\<close>

definition idle_engine :: engine where
  "idle_engine =
     \<lparr>lower_rest = (\<lambda>s. s), canonicalize_rest = (\<lambda>u. u),
      throws_rest = (\<lambda>p. True), replace_rest = (\<lambda>p s. s)\<rparr>"

declare decimal.simps [simp del]
declare search_loop.simps [simp del]
declare replace_global.simps [simp del]
declare wrap_matches.simps [simp del]

section \<open>Facts about the string built-ins\<close>












lemma substring_from_drop: "substring_from s x = drop (nat \<lfloor>x\<rfloor>) s"
proof (cases "x < 0")
  case True
  then have "\<lceil>x\<rceil> \<le> 0" "\<lfloor>x\<rfloor> < 0" by (simp_all add: ceiling_le_iff floor_less_iff)
  then show ?thesis using True
    by (auto simp: substring_from_def clamp_index_def to_integer_def)
next
  case False
  then show ?thesis
    by (simp add: substring_from_def clamp_index_def to_integer_def min_def)
qed

lemma substring_beyond:
  assumes "of_nat (length s) \<le> a" "of_nat (length s) \<le> b"
  shows "substring s a b = []"
proof -
  have "0 \<le> a" "0 \<le> b" using assms by (meson of_nat_0_le_iff order_trans)+
  moreover have "int (length s) \<le> \<lfloor>a\<rfloor>" "int (length s) \<le> \<lfloor>b\<rfloor>"
    using assms by (simp_all add: le_floor_iff)
  ultimately show ?thesis
    by (auto simp: substring_def clamp_index_def Let_def to_integer_def)
qed


section \<open>Facts about the regular expression of a plain query\<close>

lemma plain_token: "\<not> is_syntax_character c \<Longrightarrow> token_of c = TChar c"
  by (simp add: is_syntax_character_def token_of_def js_def)

lemma tokenize_plain: "plain_query q \<Longrightarrow> tokenize q = Parsed (map TChar q)"
proof (induction q)
  case Nil
  then show ?case by simp
next
  case (Cons c q)
  then have c: "\<not> is_syntax_character c" and q: "plain_query q"
    by (simp_all add: plain_query_def)
  from c have "c \<noteq> of_char (CHR 0x5C)" "c \<noteq> of_char CHR ''[''" "c \<noteq> of_char CHR ''{''"
    "c \<noteq> of_char CHR ''(''"
    by (auto simp: is_syntax_character_def js_def)
  with Cons.IH [OF q] plain_token [OF c] show ?case by simp
qed

lemma parse_tokens_plain:
  "parse_tokens fr stack lt (map TChar q @ ts) =
     parse_tokens (fst fr, rev (map Chr q) @ snd fr) stack (if q = [] then lt else Atom) ts"
  by (induction q arbitrary: fr lt) auto

lemma parse_pattern_plain:
  assumes "plain_query q"
  shows "parse_pattern q = Parsed (cat_of (map Chr q), 0)"
proof -
  have "parse_tokens ([], []) [] NoAtom (map TChar q) = Parsed (cat_of (map Chr q))"
    using parse_tokens_plain [of "([], [])" "[]" NoAtom q "[]"]
    by (simp add: close_frame_def)
  moreover have "count_groups (map TChar q) = 0"
    by (simp add: count_groups_def)
  ultimately show ?thesis
    by (simp add: parse_pattern_def tokenize_plain [OF assms])
qed

lemma ends_literal:
  "ends eng n (cat_of (map Chr q)) s = (if starts_with eng q s then [drop (length q) s] else [])"
proof (induction q arbitrary: s)
  case Nil
  then show ?case by (simp add: starts_with_def)
next
  case (Cons c q)
  show ?case
  proof (cases s)
    case Nil
    then show ?thesis by (simp add: starts_with_def)
  next
    case (Cons x xs)
    then show ?thesis
      using Cons.IH [of xs]
      by (auto simp: starts_with_def)
  qed
qed

lemma expand_no_dollar:
  "of_char CHR ''$'' \<notin> set t \<Longrightarrow> expand t m b a = t"
  by (induction t m b a rule: expand.induct) auto

lemma replace_global_match:
  assumes "i \<le> length s" "ends eng (length s) re (drop i s) = e # es"
    "k = length s - i - length e" "0 < k"
  shows "replace_global eng re t s i =
           expand t (take k (drop i s)) (take i s) (drop (i + k) s) @
           replace_global eng re t s (i + k)"
  using assms by (subst replace_global.simps) (simp add: Let_def)

lemma replace_global_no_match:
  assumes "i < length s" "ends eng (length s) re (drop i s) = []"
  shows "replace_global eng re t s i = s ! i # replace_global eng re t s (Suc i)"
  using assms by (subst replace_global.simps) simp

lemma replace_global_literal:
  assumes "q \<noteq> []" "of_char CHR ''$'' \<notin> set t" "i \<le> length s"
  shows "replace_global eng (cat_of (map Chr q)) t s i =
           wrap_matches eng (\<lambda>m. t) q (drop i s)"
  using assms(3)
proof (induction "length s - i" arbitrary: i rule: less_induct)
  case less
  show ?case
  proof (cases "i = length s")
    case True
    then show ?thesis
      using assms(1)
      by (subst replace_global.simps, subst wrap_matches.simps)
         (simp add: ends_literal starts_with_def)
  next
    case False
    with less.prems have i: "i < length s" by simp
    then have ne: "drop i s \<noteq> []" by simp
    show ?thesis
    proof (cases "starts_with eng q (drop i s)")
      case True
      then have len: "length q \<le> length s - i" by (simp add: starts_with_def)
      have e: "ends eng (length s) (cat_of (map Chr q)) (drop i s) = [drop (length q) (drop i s)]"
        using True by (simp add: ends_literal)
      have k: "length s - i - length (drop (length q) (drop i s)) = length q"
        using len i by simp
      have pos: "0 < length q" using assms(1) by simp
      have d1: "length s - (i + length q) < length s - i" using len i pos by arith
      have d2: "i + length q \<le> length s" using len i by arith
      have ih: "replace_global eng (cat_of (map Chr q)) t s (i + length q) =
                wrap_matches eng (\<lambda>m. t) q (drop (i + length q) s)"
        by (rule less.hyps [OF d1 d2])
      have "replace_global eng (cat_of (map Chr q)) t s i =
            t @ replace_global eng (cat_of (map Chr q)) t s (i + length q)"
        using replace_global_match [OF less.prems e k [symmetric] pos, of t]
        by (simp add: expand_no_dollar [OF assms(2)])
      moreover have "wrap_matches eng (\<lambda>m. t) q (drop i s) =
            t @ wrap_matches eng (\<lambda>m. t) q (drop (length q) (drop i s))"
        using True ne assms(1) by (subst wrap_matches.simps) simp
      ultimately show ?thesis using ih by (simp add: add.commute)
    next
      case False
      then have e: "ends eng (length s) (cat_of (map Chr q)) (drop i s) = []"
        by (simp add: ends_literal)
      have d1: "length s - Suc i < length s - i" using i by arith
      have d2: "Suc i \<le> length s" using i by arith
      have ih: "replace_global eng (cat_of (map Chr q)) t s (Suc i) =
                wrap_matches eng (\<lambda>m. t) q (drop (Suc i) s)"
        by (rule less.hyps [OF d1 d2])
      have "replace_global eng (cat_of (map Chr q)) t s i =
            s ! i # replace_global eng (cat_of (map Chr q)) t s (Suc i)"
        by (rule replace_global_no_match [OF i e])
      moreover have "wrap_matches eng (\<lambda>m. t) q (drop i s) =
            hd (drop i s) # wrap_matches eng (\<lambda>m. t) q (tl (drop i s))"
        using False ne assms(1) by (subst wrap_matches.simps) simp
      moreover have "hd (drop i s) = s ! i" using i by (simp add: hd_drop_conv_nth)
      moreover have "tl (drop i s) = drop (Suc i) s" by (simp add: drop_Suc tl_drop)
      ultimately show ?thesis using ih by simp
    qed
  qed
qed

lemma highlight_plain:
  assumes "plain_query q" "q \<noteq> []"
  shows "highlight eng s q = Returns (wrap_matches eng (\<lambda>m. mark q) q s)"
proof -
  from assms(1) have "of_char CHR ''$'' \<notin> set q"
    by (auto simp: plain_query_def is_syntax_character_def list_all_iff js_def)
  then have "of_char CHR ''$'' \<notin> set (js ''**'' @ q @ js ''**'')" by (simp add: js_def)
  from replace_global_literal [OF assms(2) this, of 0 s eng] show ?thesis
    by (simp add: highlight_def parse_pattern_plain [OF assms(1)] mark_def Let_def)
qed

lemma highlight_empty: "\<exists>p. highlight eng s [] = Returns p"
  by (simp add: highlight_def parse_pattern_def close_frame_def count_groups_def Let_def)

lemma highlight_throws: "highlight eng s q = Throws e \<Longrightarrow> e = SyntaxError"
  by (auto simp: highlight_def Let_def split: parse.splits if_splits prod.splits)






section \<open>Facts about the search loop\<close>


lemma search_loop_Returns:
  assumes "search_loop eng doc q k cl s acc = Returns ms"
  shows "(ms = acc \<and>
           (s < length (toLowerCase eng (content doc)) \<longrightarrow>
            indexOf (toLowerCase eng (content doc)) (toLowerCase eng q) s = None)) \<or>
         (\<exists>i pv. s < length (toLowerCase eng (content doc)) \<and>
            indexOf (toLowerCase eng (content doc)) (toLowerCase eng q) s = Some i \<and>
            highlight eng (context_window (content doc) q cl i) q = Returns pv \<and>
            (if k \<le> of_nat (length acc) + 1
             then ms = acc @ [\<lparr>position = i,
                               context_text = trim (context_window (content doc) q cl i),
                               preview = pv\<rparr>]
             else search_loop eng doc q k cl (i + length q)
                    (acc @ [\<lparr>position = i,
                             context_text = trim (context_window (content doc) q cl i),
                             preview = pv\<rparr>]) = Returns ms))"
  using assms
  by (subst (asm) search_loop.simps)
     (auto simp: Let_def context_window_def window_start_def window_end_def add.commute
           split: if_splits option.splits outcome.splits)

lemma search_loop_cases:
  assumes "search_loop eng doc q k cl s acc = Returns ms"
  obtains (stop) "ms = acc"
      "s < length (toLowerCase eng (content doc)) \<longrightarrow>
       indexOf (toLowerCase eng (content doc)) (toLowerCase eng q) s = None"
    | (found) i pv where "s < length (toLowerCase eng (content doc))"
        "indexOf (toLowerCase eng (content doc)) (toLowerCase eng q) s = Some i"
        "highlight eng (context_window (content doc) q cl i) q = Returns pv"
        "if k \<le> of_nat (length acc) + 1
         then ms = acc @ [\<lparr>position = i,
                           context_text = trim (context_window (content doc) q cl i),
                           preview = pv\<rparr>]
         else search_loop eng doc q k cl (i + length q)
                (acc @ [\<lparr>position = i,
                         context_text = trim (context_window (content doc) q cl i),
                         preview = pv\<rparr>]) = Returns ms"
  using search_loop_Returns [OF assms]
  apply (elim disjE exE conjE)
   apply (rule stop; assumption)
  apply (rule found; assumption)
  done

lemma loop_measure:
  fixes k :: rat
  assumes "\<not> k \<le> of_nat n + 1"
  shows "nat \<lceil>k\<rceil> - Suc n < nat \<lceil>k\<rceil> - n" "Suc (Suc n) \<le> nat \<lceil>k\<rceil>"
proof -
  from assms have "of_int (int n + 1) < k" by simp
  then have "int n + 1 < \<lceil>k\<rceil>" by (simp only: less_ceiling_iff)
  then show "nat \<lceil>k\<rceil> - Suc n < nat \<lceil>k\<rceil> - n" "Suc (Suc n) \<le> nat \<lceil>k\<rceil>" by linarith+
qed

lemma search_loop_plain_total:
  assumes "plain_query q"
  shows "\<exists>ms. search_loop eng doc q k cl s acc = Returns ms"
proof (induction "nat \<lceil>k\<rceil> - length acc" arbitrary: s acc rule: less_induct)
  case less
  have h: "\<And>x. \<exists>p. highlight eng x q = Returns p"
    using highlight_plain [OF assms] highlight_empty by (cases "q = []") auto
  show ?case
  proof (cases "s < length (toLowerCase eng (content doc))")
    case False
    then show ?thesis by (subst search_loop.simps) simp
  next
    case True
    show ?thesis
    proof (cases "indexOf (toLowerCase eng (content doc)) (toLowerCase eng q) s")
      case None
      with True show ?thesis by (subst search_loop.simps) simp
    next
      case (Some i)
      let ?ctx = "substring (content doc) (max 0 (of_nat i - cl))
                    (min (of_nat (length (content doc))) (of_nat i + of_nat (length q) + cl))"
      from h obtain pv where pv: "highlight eng ?ctx q = Returns pv" by blast
      let ?acc = "acc @ [\<lparr>position = i, context_text = trim ?ctx, preview = pv\<rparr>]"
      show ?thesis
      proof (cases "k \<le> of_nat (length ?acc)")
        case True
        with \<open>s < length (toLowerCase eng (content doc))\<close> Some pv show ?thesis
          by (subst search_loop.simps) (simp add: Let_def)
      next
        case False
        then have "\<not> k \<le> of_nat (length acc) + 1" by simp
        from loop_measure(1) [OF this]
        have "nat \<lceil>k\<rceil> - length ?acc < nat \<lceil>k\<rceil> - length acc" by simp
        from less.hyps [OF this] obtain ms where
          "search_loop eng doc q k cl (i + length q) ?acc = Returns ms" by blast
        with False \<open>s < length (toLowerCase eng (content doc))\<close> Some pv show ?thesis
          by (subst search_loop.simps) (simp add: Let_def)
      qed
    qed
  qed
qed


lemma search_loop_length:
  assumes "search_loop eng doc q k cl s acc = Returns ms"
  shows "length ms \<le> max (nat \<lceil>k\<rceil>) (Suc (length acc))"
  using assms
proof (induction "nat \<lceil>k\<rceil> - length acc" arbitrary: s acc rule: less_induct)
  case less
  let ?c = "content doc"
  from less.prems show ?case
  proof (cases rule: search_loop_cases)
    case stop
    then show ?thesis by simp
  next
    case (found i pv)
    let ?m = "\<lparr>position = i, context_text = trim (context_window ?c q cl i), preview = pv\<rparr>"
    show ?thesis
    proof (cases "k \<le> of_nat (length acc) + 1")
      case True
      with found show ?thesis by simp
    next
      case False
      with found have rec: "search_loop eng doc q k cl (i + length q) (acc @ [?m]) = Returns ms"
        by simp
      from loop_measure [OF False]
      have d: "nat \<lceil>k\<rceil> - length (acc @ [?m]) < nat \<lceil>k\<rceil> - length acc"
        and b: "Suc (Suc (length acc)) \<le> nat \<lceil>k\<rceil>" by simp_all
      from less.hyps [OF d rec] b show ?thesis by simp
    qed
  qed
qed

lemma search_loop_Throws_step:
  assumes "search_loop eng doc q k cl s acc = Throws e"
  shows "(\<exists>x. highlight eng x q = Throws e) \<or>
         (\<exists>s' acc'. length acc' = Suc (length acc) \<and> \<not> k \<le> of_nat (length acc) + 1 \<and>
            search_loop eng doc q k cl s' acc' = Throws e)"
  using assms
  by (subst (asm) search_loop.simps)
     (fastforce simp: Let_def add.commute split: if_splits option.splits outcome.splits)

lemma search_loop_throws:
  "search_loop eng doc q k cl s acc = Throws e \<Longrightarrow> e = SyntaxError"
proof (induction "nat \<lceil>k\<rceil> - length acc" arbitrary: s acc rule: less_induct)
  case less
  from search_loop_Throws_step [OF less.prems] show ?case
  proof (elim disjE exE conjE)
    fix x assume "highlight eng x q = Throws e"
    then show ?thesis by (rule highlight_throws)
  next
    fix s' acc'
    assume a: "length acc' = Suc (length acc)" "\<not> k \<le> of_nat (length acc) + 1"
      "search_loop eng doc q k cl s' acc' = Throws e"
    from loop_measure(1) [OF a(2)] a(1)
    have "nat \<lceil>k\<rceil> - length acc' < nat \<lceil>k\<rceil> - length acc" by simp
    from less.hyps [OF this a(3)] show ?thesis .
  qed
qed

section \<open>Facts about the scan of texts of code units below 256\<close>







section \<open>Facts about the loop over the documents\<close>

lemma search_docs_step:
  assumes "search_docs eng (doc # docs) q k cl acc = Returns rs"
  obtains found where "search_loop eng doc q k cl 0 [] = Returns found"
    "found = [] \<Longrightarrow>
       (if k \<le> of_nat (length acc) then rs = acc
        else search_docs eng docs q k cl acc = Returns rs)"
    "found \<noteq> [] \<Longrightarrow>
       (if k \<le> of_nat (length acc) + 1
        then rs = acc @ [\<lparr>docId = doc_id doc, result_filename = filename doc,
                          totalMatches = length found,
                          matches = slice0 found (min (of_nat (length found)) k),
                          result_metadata = metadata doc\<rparr>]
        else search_docs eng docs q k cl
               (acc @ [\<lparr>docId = doc_id doc, result_filename = filename doc,
                        totalMatches = length found,
                        matches = slice0 found (min (of_nat (length found)) k),
                        result_metadata = metadata doc\<rparr>]) = Returns rs)"
proof -
  from assms obtain found where f: "search_loop eng doc q k cl 0 [] = Returns found"
    by (auto split: outcome.splits)
  show thesis
  proof (rule that [OF f])
    assume "found = []"
    with assms f show "if k \<le> of_nat (length acc) then rs = acc
        else search_docs eng docs q k cl acc = Returns rs"
      by (auto simp: Let_def split: if_splits)
  next
    assume "found \<noteq> []"
    with assms f show "if k \<le> of_nat (length acc) + 1
        then rs = acc @ [\<lparr>docId = doc_id doc, result_filename = filename doc,
                          totalMatches = length found,
                          matches = slice0 found (min (of_nat (length found)) k),
                          result_metadata = metadata doc\<rparr>]
        else search_docs eng docs q k cl
               (acc @ [\<lparr>docId = doc_id doc, result_filename = filename doc,
                        totalMatches = length found,
                        matches = slice0 found (min (of_nat (length found)) k),
                        result_metadata = metadata doc\<rparr>]) = Returns rs"
      by (auto simp: Let_def add.commute split: if_splits)
  qed
qed

lemma search_docs_results:
  assumes "search_docs eng docs q k cl acc = Returns rs"
  shows "\<exists>new. rs = acc @ new \<and>
           (\<forall>r \<in> set new. \<exists>doc \<in> set docs. \<exists>found.
              search_loop eng doc q k cl 0 [] = Returns found \<and> found \<noteq> [] \<and>
              r = \<lparr>docId = doc_id doc, result_filename = filename doc,
                   totalMatches = length found,
                   matches = slice0 found (min (of_nat (length found)) k),
                   result_metadata = metadata doc\<rparr>)"
  using assms
proof (induction docs arbitrary: acc)
  case Nil
  then show ?case by simp
next
  case (Cons doc docs)
  from Cons.prems obtain found where f: "search_loop eng doc q k cl 0 [] = Returns found"
    and e: "found = [] \<Longrightarrow>
       (if k \<le> of_nat (length acc) then rs = acc
        else search_docs eng docs q k cl acc = Returns rs)"
    and n: "found \<noteq> [] \<Longrightarrow>
       (if k \<le> of_nat (length acc) + 1
        then rs = acc @ [\<lparr>docId = doc_id doc, result_filename = filename doc,
                          totalMatches = length found,
                          matches = slice0 found (min (of_nat (length found)) k),
                          result_metadata = metadata doc\<rparr>]
        else search_docs eng docs q k cl
               (acc @ [\<lparr>docId = doc_id doc, result_filename = filename doc,
                        totalMatches = length found,
                        matches = slice0 found (min (of_nat (length found)) k),
                        result_metadata = metadata doc\<rparr>]) = Returns rs)"
    by (rule search_docs_step) blast
  let ?r = "\<lparr>docId = doc_id doc, result_filename = filename doc,
              totalMatches = length found,
              matches = slice0 found (min (of_nat (length found)) k),
              result_metadata = metadata doc\<rparr>"
  show ?case
  proof (cases "found = []")
    case True
    show ?thesis
    proof (cases "k \<le> of_nat (length acc)")
      case k: True
      with e [OF True] show ?thesis by simp
    next
      case k: False
      with e [OF True] have "search_docs eng docs q k cl acc = Returns rs" by simp
      from Cons.IH [OF this] show ?thesis by auto
    qed
  next
    case False
    show ?thesis
    proof (cases "k \<le> of_nat (length acc) + 1")
      case k: True
      with n [OF False] have "rs = acc @ [?r]" by simp
      with f False show ?thesis by (intro exI [of _ "[?r]"]) auto
    next
      case k: False
      with n [OF False] have "search_docs eng docs q k cl (acc @ [?r]) = Returns rs" by simp
      from Cons.IH [OF this] obtain new where new: "rs = (acc @ [?r]) @ new"
        and all: "\<forall>r \<in> set new. \<exists>doc \<in> set docs. \<exists>found.
              search_loop eng doc q k cl 0 [] = Returns found \<and> found \<noteq> [] \<and>
              r = \<lparr>docId = doc_id doc, result_filename = filename doc,
                   totalMatches = length found,
                   matches = slice0 found (min (of_nat (length found)) k),
                   result_metadata = metadata doc\<rparr>"
        by blast
      from new have "rs = acc @ (?r # new)" by simp
      moreover have "\<forall>r \<in> set (?r # new). \<exists>doc' \<in> set (doc # docs). \<exists>found.
              search_loop eng doc' q k cl 0 [] = Returns found \<and> found \<noteq> [] \<and>
              r = \<lparr>docId = doc_id doc', result_filename = filename doc',
                   totalMatches = length found,
                   matches = slice0 found (min (of_nat (length found)) k),
                   result_metadata = metadata doc'\<rparr>"
        using all f False by auto
      ultimately show ?thesis by blast
    qed
  qed
qed

lemma search_docs_length:
  assumes "search_docs eng docs q k cl acc = Returns rs"
  shows "length rs \<le> max (nat \<lceil>k\<rceil>) (Suc (length acc))"
  using assms
proof (induction docs arbitrary: acc)
  case Nil
  then show ?case by simp
next
  case (Cons doc docs)
  from Cons.prems obtain found where
    e: "found = [] \<Longrightarrow>
       (if k \<le> of_nat (length acc) then rs = acc
        else search_docs eng docs q k cl acc = Returns rs)"
    and n: "found \<noteq> [] \<Longrightarrow>
       (if k \<le> of_nat (length acc) + 1
        then rs = acc @ [\<lparr>docId = doc_id doc, result_filename = filename doc,
                          totalMatches = length found,
                          matches = slice0 found (min (of_nat (length found)) k),
                          result_metadata = metadata doc\<rparr>]
        else search_docs eng docs q k cl
               (acc @ [\<lparr>docId = doc_id doc, result_filename = filename doc,
                        totalMatches = length found,
                        matches = slice0 found (min (of_nat (length found)) k),
                        result_metadata = metadata doc\<rparr>]) = Returns rs)"
    by (rule search_docs_step) blast
  let ?r = "\<lparr>docId = doc_id doc, result_filename = filename doc,
              totalMatches = length found,
              matches = slice0 found (min (of_nat (length found)) k),
              result_metadata = metadata doc\<rparr>"
  show ?case
  proof (cases "found = []")
    case True
    show ?thesis
    proof (cases "k \<le> of_nat (length acc)")
      case k: True
      with e [OF True] show ?thesis by simp
    next
      case k: False
      with e [OF True] have "search_docs eng docs q k cl acc = Returns rs" by simp
      from Cons.IH [OF this] show ?thesis .
    qed
  next
    case False
    show ?thesis
    proof (cases "k \<le> of_nat (length acc) + 1")
      case k: True
      with n [OF False] show ?thesis by simp
    next
      case k: False
      with n [OF False] have "search_docs eng docs q k cl (acc @ [?r]) = Returns rs" by simp
      from Cons.IH [OF this] loop_measure(2) [OF k] show ?thesis by simp
    qed
  qed
qed

lemma search_docs_throws:
  "search_docs eng docs q k cl acc = Throws e \<Longrightarrow> e = SyntaxError"
proof (induction docs arbitrary: acc)
  case Nil
  then show ?case by simp
next
  case (Cons doc docs)
  then show ?case
    by (auto simp: Let_def split: outcome.splits if_splits dest: search_loop_throws)
qed

lemma search_pdfs_throws:
  "search_pdfs eng st q mr cl = Throws e \<Longrightarrow> e = SyntaxError"
  by (auto simp: search_pdfs_def Let_def split: outcome.splits dest: search_docs_throws)

lemma search_docs_plain_total:
  assumes "plain_query q"
  shows "\<exists>rs. search_docs eng docs q k cl acc = Returns rs"
proof (induction docs arbitrary: acc)
  case Nil
  then show ?case by simp
next
  case (Cons doc docs)
  from search_loop_plain_total [OF assms, of eng doc k cl 0 "[]"]
  obtain found where "search_loop eng doc q k cl 0 [] = Returns found" by blast
  with Cons.IH show ?case by (simp add: Let_def)
qed

lemma search_pdfs_plain_total:
  assumes "plain_query q"
  shows "\<exists>p. search_pdfs eng st q mr cl = Returns p"
proof -
  from search_docs_plain_total [OF assms]
  obtain rs where "search_docs eng (Object_values st) q (with_default mr 10)
                     (with_default cl 200) [] = Returns rs" by blast
  then show ?thesis by (simp add: search_pdfs_def Let_def)
qed

lemma search_pdfs_Returns:
  assumes "search_pdfs eng st q mr cl = Returns p"
  shows "search_docs eng (Object_values st) q (with_default mr 10) (with_default cl 200) [] =
           Returns (results_of p)"
    and "query_of p = q" and "totalDocuments p = length st"
    and "resultsFound p = length (results_of p)"
  using assms by (auto simp: search_pdfs_def Let_def split: outcome.splits)

lemma to_integer_of_nat: "to_integer (of_nat n) = int n"
  by (simp add: to_integer_def)

lemma slice0_full:
  "of_nat (length xs) \<le> k \<Longrightarrow> slice0 xs (min (of_nat (length xs)) k) = xs"
  by (simp add: slice0_def Let_def min_def to_integer_of_nat)


lemma length_slice0:
  assumes "0 \<le> k"
  shows "of_nat (length (slice0 xs (min (of_nat (length xs)) k))) \<le> k"
proof (cases "of_nat (length xs) \<le> k")
  case True
  from slice0_full [OF True] True show ?thesis by simp
next
  case False
  then have m: "min (of_nat (length xs)) k = k" by simp
  have "of_nat (nat \<lfloor>k\<rfloor>) \<le> k" using assms by simp
  moreover have "length (slice0 xs k) \<le> nat \<lfloor>k\<rfloor>"
    using assms by (simp add: slice0_def Let_def to_integer_def)
  ultimately have "of_nat (length (slice0 xs k)) \<le> k"
    by (meson of_nat_le_iff order_trans)
  with m show ?thesis by simp
qed

lemma search_pdfs_result:
  assumes "search_pdfs eng st q mr cl = Returns p" "r \<in> set (results_of p)"
  obtains doc found where "doc \<in> set (Object_values st)"
    "search_loop eng doc q (with_default mr 10) (with_default cl 200) 0 [] = Returns found"
    "found \<noteq> []" "docId r = doc_id doc" "totalMatches r = length found"
    "matches r = slice0 found (min (of_nat (length found)) (with_default mr 10))"
proof -
  from search_docs_results [OF search_pdfs_Returns(1) [OF assms(1)]] assms(2)
  obtain doc found where "doc \<in> set (Object_values st)"
    "search_loop eng doc q (with_default mr 10) (with_default cl 200) 0 [] = Returns found"
    "found \<noteq> []"
    "r = \<lparr>docId = doc_id doc, result_filename = filename doc,
          totalMatches = length found,
          matches = slice0 found (min (of_nat (length found)) (with_default mr 10)),
          result_metadata = metadata doc\<rparr>"
    by auto
  then show thesis by (intro that [of doc found]) simp_all
qed




section \<open>Facts about the sample store\<close>

lemma sample_docId: "new_docId sample_reading = js ''pdf_17_k3j2h1g0f''"
  by code_simp

lemma second_docId: "new_docId second_reading = js ''pdf_18_zzz''"
  by code_simp

lemma sample_document_fields:
  "doc_id (sample_document t) = js ''pdf_17_k3j2h1g0f''"
  "filename (sample_document t) = js ''a.pdf''"
  "content (sample_document t) = t"
  "metadata (sample_document t) = \<lparr>pages = 1, size_bytes = 2048, createdAt = 18, info = []\<rparr>"
proof -
  have "basename (js ''/docs/a.pdf'') = js ''a.pdf''" by code_simp
  then show "filename (sample_document t) = js ''a.pdf''"
    by (simp add: sample_document_def new_document_def)
  show "doc_id (sample_document t) = js ''pdf_17_k3j2h1g0f''"
    by (simp add: sample_document_def sample_docId new_document_def)
  show "content (sample_document t) = t"
    by (simp add: sample_document_def new_document_def)
  show "metadata (sample_document t) = \<lparr>pages = 1, size_bytes = 2048, createdAt = 18, info = []\<rparr>"
    by (simp add: sample_document_def new_document_def sample_reading_def)
qed

lemma sample_store_eq: "sample_store t = [(js ''pdf_17_k3j2h1g0f'', sample_document t)]"
  by (simp add: sample_store_def sample_file_def sample_document_def sample_docId
      register_pdf_def new_document_def)

lemma sample_store_get:
  "store_get (sample_store t) (js ''pdf_17_k3j2h1g0f'') = Own (sample_document t)"
  by (simp add: sample_store_eq store_get_def)


section \<open>Facts about the identifiers\<close>

lemma decimal_not_Nil: "decimal n \<noteq> []"
  by (subst decimal.simps) simp

lemma decimal_digits: "c \<in> set (decimal n) \<Longrightarrow> c \<noteq> 95"
proof (induction n rule: decimal.induct)
  case (1 n)
  show ?case
  proof (cases "n < 10")
    case True
    with "1.prems" have "c = 48 + int n" by (subst (asm) decimal.simps) simp
    with True show ?thesis by simp
  next
    case False
    with "1.prems" have "c \<in> set (decimal (n div 10)) \<or> c = 48 + int (n mod 10)"
      by (subst (asm) decimal.simps) auto
    then show ?thesis
    proof
      assume "c \<in> set (decimal (n div 10))"
      with "1.IH" [OF False] show ?thesis by simp
    next
      assume "c = 48 + int (n mod 10)"
      moreover have "n mod 10 < 10" by simp
      ultimately show ?thesis by linarith
    qed
  qed
qed

lemma decimal_inj: "decimal n = decimal m \<Longrightarrow> n = m"
proof (induction n arbitrary: m rule: decimal.induct)
  case (1 n)
  show ?case
  proof (cases "n < 10")
    case n: True
    show ?thesis
    proof (cases "m < 10")
      case True
      with n "1.prems" have "48 + int n = 48 + int m"
        by (subst (asm) decimal.simps, subst (asm) (2) decimal.simps) simp
      then show ?thesis by simp
    next
      case False
      with n "1.prems" have "[48 + int n] = decimal (m div 10) @ [48 + int (m mod 10)]"
        by (subst (asm) decimal.simps, subst (asm) (2) decimal.simps) simp
      with decimal_not_Nil [of "m div 10"] show ?thesis by simp
    qed
  next
    case n: False
    show ?thesis
    proof (cases "m < 10")
      case True
      with n "1.prems" have "decimal (n div 10) @ [48 + int (n mod 10)] = [48 + int m]"
        by (subst (asm) decimal.simps, subst (asm) (2) decimal.simps) simp
      with decimal_not_Nil [of "n div 10"] show ?thesis by simp
    next
      case False
      with n "1.prems" have "decimal (n div 10) @ [48 + int (n mod 10)] =
                             decimal (m div 10) @ [48 + int (m mod 10)]"
        by (subst (asm) decimal.simps, subst (asm) (2) decimal.simps) simp
      then have d: "decimal (n div 10) = decimal (m div 10)"
        and c: "n mod 10 = m mod 10" by simp_all
      from "1.IH" [OF n d] have "n div 10 = m div 10" .
      with c show ?thesis by (metis div_mult_mod_eq)
    qed
  qed
qed

lemma split_at_first:
  assumes "c \<notin> set xs" "c \<notin> set ys" "xs @ c # r = ys @ c # r'"
  shows "xs = ys \<and> r = r'"
  using assms
proof (induction xs arbitrary: ys)
  case Nil
  then show ?case by (cases ys) auto
next
  case (Cons x xs)
  then show ?case by (cases ys) auto
qed

lemma new_docId_inj:
  assumes "new_docId e1 = new_docId e2"
  shows "now e1 = now e2 \<and> random_suffix e1 = random_suffix e2"
proof -
  from assms have "decimal (now e1) @ 95 # random_suffix e1 =
                   decimal (now e2) @ 95 # random_suffix e2"
    by (simp add: new_docId_def js_def)
  from split_at_first [OF _ _ this] decimal_digits
  have "decimal (now e1) = decimal (now e2) \<and> random_suffix e1 = random_suffix e2" by blast
  with decimal_inj show ?thesis by blast
qed

lemma distinct_new_docId:
  assumes "distinct (map (\<lambda>env. (now env, random_suffix env)) envs)"
  shows "distinct (map new_docId envs)"
  using assms
proof (induction envs)
  case Nil
  then show ?case by simp
next
  case (Cons e envs)
  have "new_docId e \<notin> new_docId ` set envs"
  proof
    assume "new_docId e \<in> new_docId ` set envs"
    then obtain e' where e': "e' \<in> set envs" "new_docId e = new_docId e'" by auto
    from new_docId_inj [OF e'(2)] e'(1) Cons.prems show False by force
  qed
  with Cons show ?case by simp
qed

lemma register_calls_ids: "fst (register_calls calls st) = map new_docId (successful calls)"
proof (induction calls arbitrary: st)
  case Nil
  then show ?case by (simp add: successful_def)
next
  case (Cons call calls)
  obtain env fl path where c: "call = (env, fl, path)" by (cases call)
  show ?case
  proof (cases fl)
    case (Inl message)
    with c Cons.IH [of st] show ?thesis
      by (simp add: register_pdf_def successful_def)
  next
    case (Inr x)
    obtain n parsed where x: "x = (n, parsed)" by (cases x)
    let ?d = "new_document env path n parsed"
    from c Inr x Cons.IH [of "store_put st (doc_id ?d) ?d"] show ?thesis
      by (auto simp: register_pdf_def successful_def Let_def new_document_def split: prod.splits)
  qed
qed

lemma store_put_keys:
  "k \<notin> fst ` set st \<Longrightarrow> map fst (store_put st k d) = map fst st @ [k]"
  by (induction st) auto

lemma register_calls_keys:
  assumes "distinct (map fst st @ map new_docId (successful calls))"
  shows "map fst (snd (register_calls calls st)) = map fst st @ map new_docId (successful calls)"
  using assms
proof (induction calls arbitrary: st)
  case Nil
  then show ?case by (simp add: successful_def)
next
  case (Cons call calls)
  obtain env fl path where c: "call = (env, fl, path)" by (cases call)
  show ?case
  proof (cases fl)
    case (Inl message)
    with c Cons.IH [of st] Cons.prems show ?thesis
      by (simp add: register_pdf_def successful_def)
  next
    case (Inr x)
    obtain n parsed where x: "x = (n, parsed)" by (cases x)
    let ?d = "new_document env path n parsed"
    have id: "doc_id ?d = new_docId env" by (simp add: new_document_def)
    from c Inr have s: "successful (call # calls) = env # successful calls"
      by (simp add: successful_def)
    from Cons.prems s have k: "new_docId env \<notin> fst ` set st"
      and dist: "distinct (map fst st @ [new_docId env] @ map new_docId (successful calls))"
      by auto
    from store_put_keys [OF k] have keys: "map fst (store_put st (new_docId env) ?d) =
        map fst st @ [new_docId env]" .
    from dist keys have "distinct (map fst (store_put st (new_docId env) ?d) @
        map new_docId (successful calls))" by simp
    from Cons.IH [OF this] keys
    have "map fst (snd (register_calls calls (store_put st (new_docId env) ?d))) =
        map fst st @ new_docId env # map new_docId (successful calls)" by simp
    with c Inr x s id show ?thesis
      by (auto simp: register_pdf_def Let_def split: prod.splits)
  qed
qed

lemma registerPDFsFromFolder_register_calls:
  "registerPDFsFromFolder files ids st =
     (ids @ fst (register_calls files st), snd (register_calls files st))"
proof (induction files arbitrary: ids st)
  case Nil
  then show ?case by simp
next
  case (Cons f files)
  obtain env fl path where c: "f = (env, fl, path)" by (cases f)
  show ?case
  proof (cases fl)
    case (Inl message)
    with c Cons.IH show ?thesis by (simp add: register_pdf_def)
  next
    case (Inr x)
    obtain n parsed where x: "x = (n, parsed)" by (cases x)
    with c Inr Cons.IH show ?thesis
      by (auto simp: register_pdf_def Let_def split: prod.splits)
  qed
qed

section \<open>What a search can do\<close>



lemma search_pdfs_outcome:
  obtains (throws) "search_pdfs eng st q mr cl = Throws SyntaxError" "\<not> plain_query q"
  | (returns) p where "search_pdfs eng st q mr cl = Returns p"
proof (cases "search_pdfs eng st q mr cl")
  case (Returns p)
  then show thesis by (rule returns)
next
  case (Throws e)
  from search_pdfs_throws [OF Throws] Throws
  have t: "search_pdfs eng st q mr cl = Throws SyntaxError" by simp
  have "\<not> plain_query q"
  proof
    assume "plain_query q"
    from search_pdfs_plain_total [OF this, of eng st mr cl] t show False by simp
  qed
  with t show thesis by (rule throws)
qed

lemma get_pdf_content_inherited:
  "map_of (sample_store (js ''abc'')) (js ''toString'') = None \<and>
   get_pdf_content (sample_store (js ''abc'')) (js ''toString'') None None = Throws TypeError"
  by code_simp

section \<open>The claims\<close>

text \<open>
  C1: a search whose query holds a character with a meaning in a pattern completes
  and wraps in the preview what the scan located. The code does not: the scan finds
  the query \<^verbatim>\<open>(\<close> in the text \<^verbatim>\<open>a(b\<close> at offset 1, and building the preview throws;
  for the query \<^verbatim>\<open>.\<close> in \<^verbatim>\<open>a.b\<close> the scan locates one occurrence and the preview
  wraps three.
\<close>

theorem search_pdfs_pattern_query:
  "indexOf (toLowerCase eng (js ''a(b'')) (toLowerCase eng (js ''('')) 0 = Some 1 \<and>
   search_pdfs eng (sample_store (js ''a(b'')) (js ''('') None None = Throws SyntaxError \<and>
   search_pdfs eng (sample_store (js ''a.b'')) (js ''.'') None None =
     Returns
       \<lparr>query_of = js ''.'', totalDocuments = 1, resultsFound = 1,
        results_of =
          [\<lparr>docId = js ''pdf_17_k3j2h1g0f'', result_filename = js ''a.pdf'', totalMatches = 1,
            matches = [\<lparr>position = 1, context_text = js ''a.b'',
                        preview = js ''**.****.****.**''\<rparr>],
            result_metadata = \<lparr>pages = 1, size_bytes = 2048, createdAt = 18, info = []\<rparr>\<rparr>]\<rparr>"
  by code_simp




text \<open>
  C3 as stated fails for a \<open>maxResults\<close> that is not a whole number from 1 on. For
  \<open>maxResults = 0\<close> the search over a document with two occurrences returns one
  document, whose \<open>totalMatches\<close> is 1 and whose list of matches is empty. For
  \<open>maxResults = 3/2\<close> the search over \<^verbatim>\<open>aaa\<close> returns \<open>totalMatches = 2\<close> with one
  match, and the search over two documents with an occurrence each returns both.
\<close>

theorem search_pdfs_cap_counterexample:
  "search_pdfs idle_engine (sample_store (js ''aa'')) (js ''a'') (Some 0) None =
     Returns
       \<lparr>query_of = js ''a'', totalDocuments = 1, resultsFound = 1,
        results_of =
          [\<lparr>docId = js ''pdf_17_k3j2h1g0f'', result_filename = js ''a.pdf'', totalMatches = 1,
            matches = [],
            result_metadata = \<lparr>pages = 1, size_bytes = 2048, createdAt = 18, info = []\<rparr>\<rparr>]\<rparr> \<and>
   search_pdfs idle_engine (sample_store (js ''aaa'')) (js ''a'') (Some (3 / 2)) None =
     Returns
       \<lparr>query_of = js ''a'', totalDocuments = 1, resultsFound = 1,
        results_of =
          [\<lparr>docId = js ''pdf_17_k3j2h1g0f'', result_filename = js ''a.pdf'', totalMatches = 2,
            matches = [\<lparr>position = 0, context_text = js ''aaa'',
                        preview = js ''**a****a****a**''\<rparr>],
            result_metadata = \<lparr>pages = 1, size_bytes = 2048, createdAt = 18, info = []\<rparr>\<rparr>]\<rparr> \<and>
   map docId (case search_pdfs idle_engine (sample_store2 (js ''a'') (js ''a'')) (js ''a'')
                     (Some (3 / 2)) None of
                Returns p \<Rightarrow> results_of p | Throws e \<Rightarrow> []) =
     [js ''pdf_17_k3j2h1g0f'', js ''pdf_18_zzz'']"
  by code_simp

text \<open>
  C3, amended: for every search with \<open>maxResults = n\<close>, a whole number from 1 on, the
  search throws a \<open>SyntaxError\<close>, which it does only for a query with a pattern
  character, or it returns, and then the list of results holds at most \<open>n\<close> documents,
  the list of matches of each of them holds at most \<open>n\<close> entries, and \<open>totalMatches\<close>
  is the length of that list.
\<close>

theorem search_pdfs_cap:
  fixes n :: nat
  assumes "with_default maxResults_arg 10 = of_nat n"
    and "0 < n"
  shows "case search_pdfs eng st q maxResults_arg contextLength_arg of
           Throws e \<Rightarrow> e = SyntaxError \<and> \<not> plain_query q
         | Returns p \<Rightarrow>
             length (results_of p) \<le> n \<and>
             (\<forall>r \<in> set (results_of p).
                length (matches r) \<le> n \<and> totalMatches r = length (matches r))"
proof (cases rule: search_pdfs_outcome [of eng st q maxResults_arg contextLength_arg])
  case throws
  then show ?thesis by simp
next
  case (returns p)
  from search_docs_length [OF search_pdfs_Returns(1) [OF returns]] assms
  have a: "length (results_of p) \<le> n" by simp
  have b: "length (matches r) \<le> n \<and> totalMatches r = length (matches r)"
    if "r \<in> set (results_of p)" for r
  proof -
    from returns that obtain doc found where
      f: "search_loop eng doc q (with_default maxResults_arg 10)
            (with_default contextLength_arg 200) 0 [] = Returns found"
      and t: "totalMatches r = length found"
      and m: "matches r = slice0 found (min (of_nat (length found))
                                           (with_default maxResults_arg 10))"
      by (rule search_pdfs_result)
    from search_loop_length [OF f] assms have len: "length found \<le> n" by simp
    then have "(of_nat (length found) :: rat) \<le> with_default maxResults_arg 10"
      by (simp add: assms(1))
    from slice0_full [OF this] m have "matches r = found" by simp
    with t len show ?thesis by simp
  qed
  from a b returns show ?thesis by simp
qed

theorem search_pdfs_cap_witness:
  "with_default (Some 1) 10 = (of_nat 1 :: rat) \<and>
   search_pdfs idle_engine (sample_store (js ''aa'')) (js ''a'') (Some 1) None =
     Returns
       \<lparr>query_of = js ''a'', totalDocuments = 1, resultsFound = 1,
        results_of =
          [\<lparr>docId = js ''pdf_17_k3j2h1g0f'', result_filename = js ''a.pdf'', totalMatches = 1,
            matches = [\<lparr>position = 0, context_text = js ''aa'',
                        preview = js ''**a****a**''\<rparr>],
            result_metadata = \<lparr>pages = 1, size_bytes = 2048, createdAt = 18, info = []\<rparr>\<rparr>]\<rparr> \<and>
   length (case search_pdfs idle_engine (sample_store (js ''aa'')) (js ''a'') (Some 1) None of
             Returns p \<Rightarrow> results_of p | Throws e \<Rightarrow> []) \<le> 1"
proof -
  have h1: "with_default (Some 1) 10 = (of_nat 1 :: rat)" by (simp add: with_default_def)
  have h2: "0 < (1::nat)" by simp
  have s: "search_pdfs idle_engine (sample_store (js ''aa'')) (js ''a'') (Some 1) None =
     Returns
       \<lparr>query_of = js ''a'', totalDocuments = 1, resultsFound = 1,
        results_of =
          [\<lparr>docId = js ''pdf_17_k3j2h1g0f'', result_filename = js ''a.pdf'', totalMatches = 1,
            matches = [\<lparr>position = 0, context_text = js ''aa'',
                        preview = js ''**a****a**''\<rparr>],
            result_metadata = \<lparr>pages = 1, size_bytes = 2048, createdAt = 18, info = []\<rparr>\<rparr>]\<rparr>"
    by code_simp
  from search_pdfs_cap [OF h1 h2, where eng = idle_engine and st = "sample_store (js ''aa'')"
      and q = "js ''a''" and contextLength_arg = None]
  have "length (case search_pdfs idle_engine (sample_store (js ''aa'')) (js ''a'') (Some 1) None of
             Returns p \<Rightarrow> results_of p | Throws e \<Rightarrow> []) \<le> 1"
    by (cases "search_pdfs idle_engine (sample_store (js ''aa'')) (js ''a'') (Some 1) None")
       simp_all
  with h1 s show ?thesis by blast
qed







text \<open>
  C6 as stated fails: the search with an empty query, \<open>maxResults = -1\<close> and
  \<open>contextLength = -1\<close> returns a success payload.
\<close>

theorem search_pdfs_invalid_arguments_counterexample:
  "search_pdfs idle_engine (sample_store (js ''ab'')) [] (Some (- 1)) (Some (- 1)) =
     Returns
       \<lparr>query_of = [], totalDocuments = 1, resultsFound = 1,
        results_of =
          [\<lparr>docId = js ''pdf_17_k3j2h1g0f'', result_filename = js ''a.pdf'', totalMatches = 1,
            matches = [],
            result_metadata = \<lparr>pages = 1, size_bytes = 2048, createdAt = 18, info = []\<rparr>\<rparr>]\<rparr>"
  by code_simp

text \<open>
  C6, amended: the search validates nothing. It never throws \<open>InvalidArgument\<close>,
  whatever the store and the arguments, and with an empty query it returns a success
  payload for every \<open>maxResults\<close> and \<open>contextLength\<close>, negative ones included.
\<close>

theorem search_pdfs_validates_nothing:
  "search_pdfs eng st q maxResults_arg contextLength_arg \<noteq> Throws InvalidArgument \<and>
   (\<exists>p. search_pdfs eng st [] maxResults_arg contextLength_arg = Returns p)"
proof
  show "search_pdfs eng st q maxResults_arg contextLength_arg \<noteq> Throws InvalidArgument"
    using search_pdfs_throws [of eng st q maxResults_arg contextLength_arg InvalidArgument]
    by auto
  have "plain_query []" by (simp add: plain_query_def)
  then show "\<exists>p. search_pdfs eng st [] maxResults_arg contextLength_arg = Returns p"
    by (rule search_pdfs_plain_total)
qed

text \<open>
  C7 as stated fails: two calls that observe the same timestamp and draw the same
  random text return the same identifier, and the second document takes the place of
  the first in the store.
\<close>

theorem register_ids_counterexample:
  "register_calls
     [(sample_reading, sample_file (js ''x''), js ''/docs/a.pdf''),
      (sample_reading, sample_file (js ''y''), js ''/docs/b.pdf'')] [] =
   ([js ''pdf_17_k3j2h1g0f'', js ''pdf_17_k3j2h1g0f''],
    [(js ''pdf_17_k3j2h1g0f'',
      \<lparr>doc_id = js ''pdf_17_k3j2h1g0f'', filePath = js ''/docs/b.pdf'', filename = js ''b.pdf'',
       content = js ''y'',
       metadata = \<lparr>pages = 1, size_bytes = 2048, createdAt = 18, info = []\<rparr>\<rparr>)])"
  by code_simp

text \<open>
  C7, amended: if no two successful calls of a sequence observe both the same
  timestamp and the same random text, the identifiers they return are pairwise
  distinct, whatever the paths and contents are; starting from the empty store, the
  keys of the store are then these identifiers, one document for each. The loop of
  \<^verbatim>\<open>registerPDFsFromFolder\<close> returns the same identifiers.
\<close>

theorem register_ids_distinct:
  assumes "distinct (observed calls)"
  shows "distinct (fst (register_calls calls [])) \<and>
         map fst (snd (register_calls calls [])) = fst (register_calls calls []) \<and>
         fst (registerPDFsFromFolder calls [] []) = fst (register_calls calls [])"
proof -
  from assms have d: "distinct (map new_docId (successful calls))"
    unfolding observed_def by (rule distinct_new_docId)
  then have "distinct (fst (register_calls calls []))" by (simp add: register_calls_ids)
  moreover from d register_calls_keys [of "[]" calls]
  have "map fst (snd (register_calls calls [])) = fst (register_calls calls [])"
    by (simp add: register_calls_ids)
  moreover have "fst (registerPDFsFromFolder calls [] []) = fst (register_calls calls [])"
    by (simp add: registerPDFsFromFolder_register_calls)
  ultimately show ?thesis by blast
qed

theorem register_ids_distinct_witness:
  "distinct (observed
     [(sample_reading, sample_file (js ''x''), js ''/docs/a.pdf''),
      (\<lparr>now = 17, random_suffix = js ''zzz'', created = 18\<rparr>, sample_file (js ''x''),
       js ''/docs/a.pdf'')]) \<and>
   fst (register_calls
     [(sample_reading, sample_file (js ''x''), js ''/docs/a.pdf''),
      (\<lparr>now = 17, random_suffix = js ''zzz'', created = 18\<rparr>, sample_file (js ''x''),
       js ''/docs/a.pdf'')] []) =
     [js ''pdf_17_k3j2h1g0f'', js ''pdf_17_zzz''] \<and>
   distinct (fst (register_calls
     [(sample_reading, sample_file (js ''x''), js ''/docs/a.pdf''),
      (\<lparr>now = 17, random_suffix = js ''zzz'', created = 18\<rparr>, sample_file (js ''x''),
       js ''/docs/a.pdf'')] []))"
proof -
  let ?calls = "[(sample_reading, sample_file (js ''x''), js ''/docs/a.pdf''),
      (\<lparr>now = 17, random_suffix = js ''zzz'', created = 18\<rparr>, sample_file (js ''x''),
       js ''/docs/a.pdf'')]"
  have h: "distinct (observed ?calls)" by code_simp
  have e: "fst (register_calls ?calls []) = [js ''pdf_17_k3j2h1g0f'', js ''pdf_17_zzz'']"
    by code_simp
  from register_ids_distinct [OF h] h e show ?thesis by blast
qed

text \<open>
  C8 as stated fails: for a stored document of three characters, \<open>startChar = 5\<close>
  and \<open>length = -4\<close> give the two characters \<^verbatim>\<open>bc\<close>, not an empty text.
\<close>

theorem get_pdf_content_counterexample:
  "store_get (sample_store (js ''abc'')) (js ''pdf_17_k3j2h1g0f'') =
     Own (sample_document (js ''abc'')) \<and>
   length (content (sample_document (js ''abc''))) = 3 \<and>
   get_pdf_content (sample_store (js ''abc'')) (js ''pdf_17_k3j2h1g0f'') (Some 5) (Some (- 4)) =
     Returns (Success
       \<lparr>got_docId = js ''pdf_17_k3j2h1g0f'', got_filename = js ''a.pdf'', startChar = 5,
        contentLength = 2, got_content = js ''bc''\<rparr>)"
  by code_simp

text \<open>
  C8, amended, in two halves that stand each on its own. For a key under which the
  store object has nothing, get-pdf-content answers \<open>Document not found\<close> and nothing
  else, whatever the other arguments and the store are, the empty store included.
  For a stored document, a \<open>startChar\<close> at or beyond the end of the content and a
  \<open>length\<close> that is absent or not negative, it succeeds with the empty text.
\<close>

theorem get_pdf_content_unknown_or_beyond:
  "(store_get st unknown = Undefined \<longrightarrow>
      get_pdf_content st unknown start_arg any_length =
        Returns (Failure (js ''Document not found''))) \<and>
   (store_get st' key = Own doc \<and> of_nat (length (content doc)) \<le> start \<and>
    (length_arg = None \<or> (\<exists>len. length_arg = Some len \<and> 0 \<le> len)) \<longrightarrow>
      get_pdf_content st' key (Some start) length_arg =
        Returns (Success
          \<lparr>got_docId = doc_id doc, got_filename = filename doc, startChar = start,
           contentLength = 0, got_content = []\<rparr>))"
proof (intro conjI impI)
  assume "store_get st unknown = Undefined"
  then show "get_pdf_content st unknown start_arg any_length =
               Returns (Failure (js ''Document not found''))"
    by (simp add: get_pdf_content_def Let_def)
next
  assume a: "store_get st' key = Own doc \<and> of_nat (length (content doc)) \<le> start \<and>
    (length_arg = None \<or> (\<exists>len. length_arg = Some len \<and> 0 \<le> len))"
  then have le: "of_nat (length (content doc)) \<le> start" by simp
  then have "0 \<le> start" by (meson of_nat_0_le_iff order_trans)
  with le have "int (length (content doc)) \<le> \<lfloor>start\<rfloor>" by (simp add: le_floor_iff)
  then have f: "substring_from (content doc) start = []"
    by (simp add: substring_from_drop)
  have b: "substring (content doc) start (start + len) = []" if "0 \<le> len" for len
    using le that by (intro substring_beyond) auto
  from a f b show "get_pdf_content st' key (Some start) length_arg =
        Returns (Success
          \<lparr>got_docId = doc_id doc, got_filename = filename doc, startChar = start,
           contentLength = 0, got_content = []\<rparr>)"
    by (cases length_arg) (auto simp: get_pdf_content_def Let_def with_default_def)
qed

theorem get_pdf_content_unknown_or_beyond_witness:
  "store_get [] (js ''pdf_0_none'') = Undefined \<and>
   get_pdf_content [] (js ''pdf_0_none'') None None =
     Returns (Failure (js ''Document not found'')) \<and>
   store_get (sample_store (js ''abc'')) (js ''pdf_17_k3j2h1g0f'') =
     Own (sample_document (js ''abc'')) \<and>
   (of_nat (length (content (sample_document (js ''abc'')))) :: rat) \<le> 5 \<and>
   get_pdf_content (sample_store (js ''abc'')) (js ''pdf_17_k3j2h1g0f'') (Some 5) (Some 2) =
     Returns (Success
       \<lparr>got_docId = js ''pdf_17_k3j2h1g0f'', got_filename = js ''a.pdf'', startChar = 5,
        contentLength = 0, got_content = []\<rparr>)"
proof -
  have h1: "store_get [] (js ''pdf_0_none'') = Undefined" by code_simp
  have h2: "store_get (sample_store (js ''abc'')) (js ''pdf_17_k3j2h1g0f'') =
              Own (sample_document (js ''abc''))"
    by (rule sample_store_get)
  have h3: "(of_nat (length (content (sample_document (js ''abc'')))) :: rat) \<le> 5"
    by (simp add: sample_document_fields js_def)
  from get_pdf_content_unknown_or_beyond [where st = "[]" and unknown = "js ''pdf_0_none''"
      and start_arg = None and any_length = None
      and st' = "sample_store (js ''abc'')" and key = "js ''pdf_17_k3j2h1g0f''"
      and doc = "sample_document (js ''abc'')" and start = 5 and length_arg = "Some 2"]
    h1 h2 h3
  show ?thesis by (simp add: sample_document_fields)
qed

text \<open>
  C9 as stated fails: in \<^verbatim>\<open>the quick brown fox the quick fox\<close> the second
  \<^verbatim>\<open>quick\<close> starts at offset 24; at offset 21 the query does not occur, and the
  search does not report the offsets 4 and 21.
\<close>

theorem search_quick_counterexample:
  "\<not> occurs_at idle_engine (js ''the quick brown fox the quick fox'') (js ''quick'') 21 \<and>
   reported_positions
     (search_pdfs idle_engine (sample_store (js ''the quick brown fox the quick fox''))
        (js ''quick'') (Some 10) (Some 5)) \<noteq> [[4, 21]]"
  by code_simp

text \<open>
  C9, amended: for the store with the one document
  \<^verbatim>\<open>the quick brown fox the quick fox\<close>, the search for \<^verbatim>\<open>quick\<close> with
  \<open>maxResults = 10\<close> and \<open>contextLength = 5\<close> yields exactly two matches, at the
  offsets 4 and 24; each context reaches 5 characters before and after the match as far
  as the content allows, and each preview holds the highlighted \<^verbatim>\<open>**quick**\<close>.
\<close>

theorem search_quick_scenario:
  "search_pdfs eng (sample_store (js ''the quick brown fox the quick fox'')) (js ''quick'')
     (Some 10) (Some 5) =
     Returns
       \<lparr>query_of = js ''quick'', totalDocuments = 1, resultsFound = 1,
        results_of =
          [\<lparr>docId = js ''pdf_17_k3j2h1g0f'', result_filename = js ''a.pdf'', totalMatches = 2,
            matches =
              [\<lparr>position = 4, context_text = js ''the quick brow'',
                preview = js ''the **quick** brow''\<rparr>,
               \<lparr>position = 24, context_text = js ''the quick fox'',
                preview = js '' the **quick** fox''\<rparr>],
            result_metadata = \<lparr>pages = 1, size_bytes = 2048, createdAt = 18, info = []\<rparr>\<rparr>]\<rparr>"
  by code_simp

text \<open>
  C10: a call of get-pdf-content with \<open>length = 0\<close> answers as a call without
  \<open>length\<close> does: with all of the content from \<open>startChar\<close> on, and with
  \<open>contentLength\<close> the length of that rest.
\<close>

theorem get_pdf_content_length_zero:
  assumes "store_get st key = Own doc"
  shows "get_pdf_content st key start_arg (Some 0) = get_pdf_content st key start_arg None \<and>
         get_pdf_content st key start_arg (Some 0) =
           Returns (Success
             \<lparr>got_docId = doc_id doc, got_filename = filename doc,
              startChar = with_default start_arg 0,
              contentLength = length (drop (nat \<lfloor>with_default start_arg 0\<rfloor>) (content doc)),
              got_content = drop (nat \<lfloor>with_default start_arg 0\<rfloor>) (content doc)\<rparr>)"
  using assms by (simp add: get_pdf_content_def Let_def substring_from_drop)

theorem get_pdf_content_length_zero_witness:
  "store_get (sample_store (js ''abcdef'')) (js ''pdf_17_k3j2h1g0f'') =
     Own (sample_document (js ''abcdef'')) \<and>
   get_pdf_content (sample_store (js ''abcdef'')) (js ''pdf_17_k3j2h1g0f'') (Some 2) (Some 0) =
     Returns (Success
       \<lparr>got_docId = js ''pdf_17_k3j2h1g0f'', got_filename = js ''a.pdf'', startChar = 2,
        contentLength = 4, got_content = js ''cdef''\<rparr>)"
proof -
  have h: "store_get (sample_store (js ''abcdef'')) (js ''pdf_17_k3j2h1g0f'') =
             Own (sample_document (js ''abcdef''))"
    by (rule sample_store_get)
  from get_pdf_content_length_zero [OF h, of "Some 2", THEN conjunct2]
  have "get_pdf_content (sample_store (js ''abcdef'')) (js ''pdf_17_k3j2h1g0f'') (Some 2) (Some 0) =
     Returns (Success
       \<lparr>got_docId = js ''pdf_17_k3j2h1g0f'', got_filename = js ''a.pdf'', startChar = 2,
        contentLength = 4, got_content = js ''cdef''\<rparr>)"
    by (simp add: sample_document_fields with_default_def js_def eval_nat_numeral)
  with h show ?thesis by (rule conjI)
qed

end
